theory Spec2Isabelle
  imports Complex_Main
begin

section \<open>Data model\<close>

text \<open>
  The request, result and table rows of the trading simulator. Go's \<^verbatim>\<open>int\<close> is modelled
  as \<^typ>\<open>int\<close> and every monetary amount (Go \<^verbatim>\<open>float64\<close>, SQL \<^verbatim>\<open>DECIMAL\<close>) as an exact
  rational: rounding by the float type and by the scale of the columns is outside the model.
\<close>

record BuyRequest =
  UserID :: int
  StockSymbol :: string
  Quantity :: int
  Price :: rat

record TradeResult =
  TradeID :: int
  Success :: bool
  Error :: string
  TotalAmount :: rat

datatype trade_type = BUY | SELL

record Trade =
  trade_id :: int
  trade_user_id :: int
  trade_stock_symbol :: string
  trade_trade_type :: trade_type
  trade_quantity :: int
  trade_price :: rat
  trade_total_amount :: rat

text \<open>
  The three tables of \<^verbatim>\<open>init.sql\<close>: \<^verbatim>\<open>users\<close> (cash balance by id), \<^verbatim>\<open>portfolios\<close>
  (quantity and average purchase price, unique per user and symbol) and \<^verbatim>\<open>trades\<close> (the
  history, oldest first). The retention trigger of \<^verbatim>\<open>init.sql\<close> that trims a user's
  history is a store-side policy and is not part of the executor modelled here.
\<close>

record ledger =
  users :: "int \<rightharpoonup> rat"
  portfolios :: "int \<times> string \<rightharpoonup> int \<times> rat"
  trades :: "Trade list"

section \<open>The store as the executor sees it\<close>

text \<open>
  Every statement sent to the store may come back with an error. The environment says which
  statements do, which id the \<^verbatim>\<open>trades\<close> sequence hands out next, and which text the request
  binder reports for a request it rejects (the binder is a library, its text a parameter).
\<close>

datatype stmt =
    TxBegin | SelectBalance | UpdateBalance | UpsertPosition | InsertTrade | TxCommit
  | SelectPosition | DeletePosition | UpdatePosition

record env =
  fails :: "stmt \<Rightarrow> bool"
  next_trade_id :: int
  bind_error :: string

definition no_faults :: "int \<Rightarrow> env" where
  "no_faults n = \<lparr>fails = (\<lambda>_. False), next_trade_id = n, bind_error = ''invalid request''\<rparr>"

text \<open>\<^verbatim>\<open>UPDATE users SET cash_balance = cash_balance - $1 WHERE id = $2\<close>\<close>

definition debit_cash_balance :: "env \<Rightarrow> rat \<Rightarrow> int \<Rightarrow> ledger \<Rightarrow> ledger option" where
  "debit_cash_balance e amount uid tx =
     (if fails e UpdateBalance then None
      else case users tx uid of
             None \<Rightarrow> Some tx
           | Some b \<Rightarrow> Some (tx\<lparr>users := (users tx)(uid \<mapsto> b - amount)\<rparr>))"

text \<open>\<^verbatim>\<open>UPDATE users SET cash_balance = cash_balance + $1 WHERE id = $2\<close>\<close>

definition credit_cash_balance :: "env \<Rightarrow> rat \<Rightarrow> int \<Rightarrow> ledger \<Rightarrow> ledger option" where
  "credit_cash_balance e amount uid tx =
     (if fails e UpdateBalance then None
      else case users tx uid of
             None \<Rightarrow> Some tx
           | Some b \<Rightarrow> Some (tx\<lparr>users := (users tx)(uid \<mapsto> b + amount)\<rparr>))"

text \<open>
  \<^verbatim>\<open>INSERT INTO portfolios ... ON CONFLICT (user_id, stock_symbol) DO UPDATE SET
  quantity = portfolios.quantity + $3, avg_purchase_price = ((portfolios.avg_purchase_price *
  portfolios.quantity) + ($4 * $3)) / (portfolios.quantity + $3)\<close>. The store rejects a
  row for a user that does not exist (foreign key), a negative quantity (\<^verbatim>\<open>CHECK\<close>) and a
  division by zero.
\<close>

definition upsert_portfolio ::
  "env \<Rightarrow> int \<Rightarrow> string \<Rightarrow> int \<Rightarrow> rat \<Rightarrow> ledger \<Rightarrow> ledger option" where
  "upsert_portfolio e uid symb q p tx =
     (if fails e UpsertPosition then None
      else case portfolios tx (uid, symb) of
             None \<Rightarrow>
               if users tx uid = None \<or> q < 0 then None
               else Some (tx\<lparr>portfolios := (portfolios tx)((uid, symb) \<mapsto> (q, p))\<rparr>)
           | Some (oq, oa) \<Rightarrow>
               if oq + q = 0 \<or> oq + q < 0 then None
               else Some (tx\<lparr>portfolios := (portfolios tx)((uid, symb) \<mapsto>
                      (oq + q, (oa * of_int oq + p * of_int q) / of_int (oq + q)))\<rparr>))"

text \<open>\<^verbatim>\<open>DELETE FROM portfolios WHERE user_id = $1 AND stock_symbol = $2\<close>\<close>

definition delete_portfolio :: "env \<Rightarrow> int \<Rightarrow> string \<Rightarrow> ledger \<Rightarrow> ledger option" where
  "delete_portfolio e uid symb tx =
     (if fails e DeletePosition then None
      else Some (tx\<lparr>portfolios := (portfolios tx)((uid, symb) := None)\<rparr>))"

text \<open>\<^verbatim>\<open>UPDATE portfolios SET quantity = $1 WHERE user_id = $2 AND stock_symbol = $3\<close>\<close>

definition update_portfolio_quantity ::
  "env \<Rightarrow> int \<Rightarrow> int \<Rightarrow> string \<Rightarrow> ledger \<Rightarrow> ledger option" where
  "update_portfolio_quantity e q uid symb tx =
     (if fails e UpdatePosition then None
      else case portfolios tx (uid, symb) of
             None \<Rightarrow> Some tx
           | Some (oq, oa) \<Rightarrow>
               if q < 0 then None
               else Some (tx\<lparr>portfolios := (portfolios tx)((uid, symb) \<mapsto> (q, oa))\<rparr>))"

text \<open>
  \<^verbatim>\<open>INSERT INTO trades (user_id, stock_symbol, trade_type, quantity, price, total_amount)
  VALUES (...) RETURNING id\<close>. The store rejects a trade of an unknown user (foreign key)
  and a quantity that is not positive (\<^verbatim>\<open>CHECK (quantity > 0)\<close>).
\<close>

definition insert_trade ::
  "env \<Rightarrow> int \<Rightarrow> string \<Rightarrow> trade_type \<Rightarrow> int \<Rightarrow> rat \<Rightarrow> rat \<Rightarrow> ledger \<Rightarrow> (int \<times> ledger) option" where
  "insert_trade e uid symb side q p amount tx =
     (if fails e InsertTrade \<or> users tx uid = None \<or> q \<le> 0 then None
      else Some (next_trade_id e,
                 tx\<lparr>trades := trades tx @
                   [\<lparr>trade_id = next_trade_id e, trade_user_id = uid, trade_stock_symbol = symb,
                     trade_trade_type = side, trade_quantity = q, trade_price = p,
                     trade_total_amount = amount\<rparr>]\<rparr>))"

section \<open>The order executor of the worker pool\<close>

definition failed :: "string \<Rightarrow> TradeResult" where
  "failed msg = \<lparr>TradeID = 0, Success = False, Error = msg, TotalAmount = 0\<rparr>"

text \<open>
  \<^verbatim>\<open>TradeProcessor.processTrade\<close> between \<^verbatim>\<open>db.DB.Begin()\<close> and the return. The
  transaction works on its own copy \<open>tx\<close> of the ledger; the deferred \<^verbatim>\<open>tx.Rollback()\<close>
  drops that copy on every early return, and \<^verbatim>\<open>tx.Commit()\<close> installs it.
\<close>

definition processTrade :: "env \<Rightarrow> BuyRequest \<Rightarrow> ledger \<Rightarrow> TradeResult \<times> ledger" where
  "processTrade e req db =
     (if fails e TxBegin then (failed ''Transaction failed'', db)
      else
        let totalCost = Price req * of_int (Quantity req) in
        if fails e SelectBalance then (failed ''Database error'', db)
        else (case users db (UserID req) of
          None \<Rightarrow> (failed ''User not found'', db)
        | Some cashBalance \<Rightarrow>
            if cashBalance < totalCost then (failed ''Insufficient funds'', db)
            else (case debit_cash_balance e totalCost (UserID req) db of
              None \<Rightarrow> (failed ''Failed to update balance'', db)
            | Some tx1 \<Rightarrow>
                (case upsert_portfolio e (UserID req) (StockSymbol req) (Quantity req) (Price req) tx1 of
                  None \<Rightarrow> (failed ''Failed to update portfolio'', db)
                | Some tx2 \<Rightarrow>
                    (case insert_trade e (UserID req) (StockSymbol req) BUY (Quantity req)
                            (Price req) totalCost tx2 of
                      None \<Rightarrow> (failed ''Failed to record trade'', db)
                    | Some (tradeID, tx3) \<Rightarrow>
                        if fails e TxCommit then (failed ''Transaction commit failed'', db)
                        else (\<lparr>TradeID = tradeID, Success = True, Error = [],
                               TotalAmount = totalCost\<rparr>, tx3))))))"

section \<open>The sell handler\<close>

text \<open>\<^verbatim>\<open>fmt.Sprintf("%d", n)\<close>: the decimal digits of an integer, with a sign when negative.\<close>

fun digits :: "nat \<Rightarrow> string" where
  "digits n = (if n < 10 then [''0123456789'' ! n]
               else digits (n div 10) @ [''0123456789'' ! (n mod 10)])"

declare digits.simps [simp del]

definition fmt_d :: "int \<Rightarrow> string" where
  "fmt_d i = (if i < 0 then CHR ''-'' # digits (nat (- i)) else digits (nat i))"

text \<open>
  The tags of \<^verbatim>\<open>models.BuyRequest\<close> that \<^verbatim>\<open>ShouldBindJSON\<close> enforces: every field
  \<^verbatim>\<open>required\<close> (not the zero value), \<^verbatim>\<open>min=1\<close> on the quantity and \<^verbatim>\<open>min=0.01\<close> on the price.
\<close>

definition binding_ok :: "BuyRequest \<Rightarrow> bool" where
  "binding_ok req \<longleftrightarrow>
     UserID req \<noteq> 0 \<and> StockSymbol req \<noteq> [] \<and> 1 \<le> Quantity req \<and> 1 / 100 \<le> Price req"

text \<open>What a handler writes with \<^verbatim>\<open>c.JSON\<close>: the status and the body.\<close>

datatype body =
    ErrorBody string
  | SoldBody string int rat

type_synonym response = "nat \<times> body"

definition insufficient_shares :: "int \<Rightarrow> int \<Rightarrow> string" where
  "insufficient_shares owned wanted =
     ''Insufficient shares. You own '' @ fmt_d owned @ '', trying to sell '' @ fmt_d wanted"

text \<open>
  \<^verbatim>\<open>SellStock\<close>, the handler of \<^verbatim>\<open>POST /api/trades/sell\<close>. It is called by the router
  directly: it takes no per-user lock and does not go through the trade queue.
\<close>

definition SellStock :: "env \<Rightarrow> BuyRequest \<Rightarrow> ledger \<Rightarrow> response \<times> ledger" where
  "SellStock e req db =
     (if \<not> binding_ok req then ((400, ErrorBody (bind_error e)), db)
      else if fails e TxBegin then ((500, ErrorBody ''Transaction failed''), db)
      else
        let totalProceeds = Price req * of_int (Quantity req) in
        if fails e SelectPosition then ((500, ErrorBody ''Database error''), db)
        else (case portfolios db (UserID req, StockSymbol req) of
          None \<Rightarrow> ((400, ErrorBody (''You don'' @ [CHR 0x27] @ ''t own this stock'')), db)
        | Some (currentQuantity, avg) \<Rightarrow>
            if currentQuantity < Quantity req
            then ((400, ErrorBody (insufficient_shares currentQuantity (Quantity req))), db)
            else
              let newQuantity = currentQuantity - Quantity req in
              (case (if newQuantity = 0
                     then delete_portfolio e (UserID req) (StockSymbol req) db
                     else update_portfolio_quantity e newQuantity (UserID req) (StockSymbol req) db) of
                None \<Rightarrow> ((500, ErrorBody ''Failed to update portfolio''), db)
              | Some tx1 \<Rightarrow>
                  (case credit_cash_balance e totalProceeds (UserID req) tx1 of
                    None \<Rightarrow> ((500, ErrorBody ''Failed to update balance''), db)
                  | Some tx2 \<Rightarrow>
                      (case insert_trade e (UserID req) (StockSymbol req) SELL (Quantity req)
                              (Price req) totalProceeds tx2 of
                        None \<Rightarrow> ((500, ErrorBody ''Failed to record trade''), db)
                      | Some (tradeID, tx3) \<Rightarrow>
                          if fails e TxCommit
                          then ((500, ErrorBody ''Transaction commit failed''), db)
                          else ((200, SoldBody ''Stock sold successfully'' tradeID totalProceeds),
                                tx3))))))"


section \<open>Concrete ledgers and orders\<close>

text \<open>User 1 with a balance of 10000, and the ledger after each of two buys.\<close>

definition demo_ledger :: ledger where
  "demo_ledger = \<lparr>users = [1 \<mapsto> 10000], portfolios = Map.empty, trades = []\<rparr>"

definition order :: "int \<Rightarrow> string \<Rightarrow> int \<Rightarrow> rat \<Rightarrow> BuyRequest" where
  "order uid symb q p = \<lparr>UserID = uid, StockSymbol = symb, Quantity = q, Price = p\<rparr>"

definition after_first_buy :: ledger where
  "after_first_buy =
     \<lparr>users = [1 \<mapsto> 8500], portfolios = [(1, ''AAPL'') \<mapsto> (10, 150)],
      trades = [\<lparr>trade_id = 1, trade_user_id = 1, trade_stock_symbol = ''AAPL'',
                 trade_trade_type = BUY, trade_quantity = 10, trade_price = 150,
                 trade_total_amount = 1500\<rparr>]\<rparr>"




text \<open>A user who cannot afford the order, and the ledger after a sell of 5 and of all 10 shares.\<close>

definition poor_ledger :: ledger where
  "poor_ledger = \<lparr>users = [1 \<mapsto> 100], portfolios = Map.empty, trades = []\<rparr>"



section \<open>The lock registry\<close>

text \<open>
  \<^verbatim>\<open>PortfolioManager.userLocks\<close>: the mutex of each user that has one, \<open>True\<close> when it
  is locked. A Go mutex does not record which goroutine locked it. The map is only touched
  under \<^verbatim>\<open>mapMutex\<close>, so each access to it is one atomic step.
\<close>

type_synonym registry = "int \<rightharpoonup> bool"

text \<open>The first half of \<^verbatim>\<open>LockUser\<close>: fetch the user's mutex, creating it when absent.\<close>

definition lock_entry :: "int \<Rightarrow> registry \<Rightarrow> registry" where
  "lock_entry u m = (if m u = None then m(u \<mapsto> False) else m)"

text \<open>
  The second half, \<^verbatim>\<open>userMutex.Lock()\<close>: it returns once the mutex is free and is then
  locked; \<open>None\<close> says that the caller is blocked.
\<close>

definition mutex_lock :: "int \<Rightarrow> registry \<Rightarrow> registry option" where
  "mutex_lock u m = (if m u = Some False then Some (m(u \<mapsto> True)) else None)"

definition LockUser :: "int \<Rightarrow> registry \<Rightarrow> registry option" where
  "LockUser u m = mutex_lock u (lock_entry u m)"

text \<open>
  \<^verbatim>\<open>UnlockUser\<close>: nothing happens without an entry (\<^verbatim>\<open>if userMutex != nil\<close>); unlocking
  a mutex that is not locked is the fatal runtime error \<^verbatim>\<open>sync: unlock of unlocked mutex\<close>.
\<close>

datatype unlocked = Returned registry | Fatal

definition UnlockUser :: "int \<Rightarrow> registry \<Rightarrow> unlocked" where
  "UnlockUser u m =
     (case m u of
        None \<Rightarrow> Returned m
      | Some locked \<Rightarrow> if locked then Returned (m(u \<mapsto> False)) else Fatal)"

section \<open>The worker pool\<close>

text \<open>
  Where a worker goroutine is in \<^verbatim>\<open>TradeProcessor.worker\<close>: at the \<^verbatim>\<open>select\<close>; with a
  request taken from the queue (and the number of the caller that waits on its result
  channel); with the user's mutex fetched and waiting to lock it; inside the executor with
  the mutex locked; with the result ready to send; or returned.
\<close>

datatype wstate =
    Idle
  | Dequeued BuyRequest nat
  | LockWait BuyRequest nat
  | Executing BuyRequest nat
  | Replying BuyRequest nat
  | Exited

text \<open>A caller of \<^verbatim>\<open>SubmitTrade\<close>: before the send, waiting for the result, returned.\<close>

datatype sstate = Calling | Awaiting | Answered

text \<open>A request in \<^verbatim>\<open>SellStock\<close>: not begun, between begin and return, returned.\<close>

datatype hstate = Arrived | Selling | Responded

text \<open>The caller of \<^verbatim>\<open>Stop\<close>: not called, in \<^verbatim>\<open>wg.Wait()\<close>, returned.\<close>

datatype stop_state = StopNotCalled | StopWaiting | StopReturned

record engine =
  userLocks :: registry
  tradeQueue :: "(BuyRequest \<times> nat) list"
  stopCh :: bool
  wg :: nat
  workers :: "wstate list"
  submits :: "(BuyRequest \<times> sstate) list"
  sells :: "(BuyRequest \<times> hstate) list"
  stopping :: stop_state
  fatal :: bool

text \<open>\<^verbatim>\<open>make(chan TradeRequest, 100)\<close>\<close>

definition queue_capacity :: nat where
  "queue_capacity = 100"

text \<open>
  \<^verbatim>\<open>NewTradeProcessor(n)\<close> followed by \<^verbatim>\<open>Start()\<close>: \<open>n\<close> workers at their \<^verbatim>\<open>select\<close>,
  counted in the wait group; the callers of \<^verbatim>\<open>SubmitTrade\<close> and the sell requests that
  will arrive, each with its request.
\<close>

definition started :: "nat \<Rightarrow> BuyRequest list \<Rightarrow> BuyRequest list \<Rightarrow> engine" where
  "started n buys sales =
     \<lparr>userLocks = Map.empty, tradeQueue = [], stopCh = False, wg = n,
      workers = replicate n Idle,
      submits = map (\<lambda>r. (r, Calling)) buys,
      sells = map (\<lambda>r. (r, Arrived)) sales,
      stopping = StopNotCalled, fatal = False\<rparr>"

text \<open>The steps goroutines take; the scheduler picks which one is next.\<close>

datatype event =
    Submit nat
  | Dequeue nat
  | ObserveStop nat
  | FetchLock nat
  | AcquireLock nat
  | Finish nat
  | Reply nat
  | CallStop
  | StopReturn
  | SellBegin nat
  | SellEnd nat

text \<open>
  One step; \<open>None\<close> when the goroutine is not at that point or is blocked there.
  \<^item> \<open>Submit k\<close>: \<^verbatim>\<open>tp.tradeQueue <- TradeRequest{...}\<close>, blocked while the queue is full.
  \<^item> \<open>Dequeue i\<close>: the \<^verbatim>\<open>select\<close> case \<^verbatim>\<open>tradeReq := <-tp.tradeQueue\<close>.
  \<^item> \<open>ObserveStop i\<close>: the \<^verbatim>\<open>select\<close> case \<^verbatim>\<open><-tp.stopCh\<close>, the return and the deferred
    \<^verbatim>\<open>wg.Done()\<close> (a fatal error on a counter that is zero).
  \<^item> \<open>FetchLock i\<close>, \<open>AcquireLock i\<close>: the two halves of \<^verbatim>\<open>LockUser\<close>.
  \<^item> \<open>Finish i\<close>: the executor returns and the deferred \<^verbatim>\<open>UnlockUser\<close> runs.
  \<^item> \<open>Reply i\<close>: \<^verbatim>\<open>tradeReq.ResultCh <- result\<close>, received by the waiting caller.
  \<^item> \<open>CallStop\<close>: \<^verbatim>\<open>close(tp.stopCh)\<close>; \<open>StopReturn\<close>: \<^verbatim>\<open>tp.wg.Wait()\<close> returns.
  \<^item> \<open>SellBegin j\<close>, \<open>SellEnd j\<close>: \<^verbatim>\<open>db.DB.Begin()\<close> and the return of \<^verbatim>\<open>SellStock\<close>.
\<close>

fun step :: "event \<Rightarrow> engine \<Rightarrow> engine option" where
  "step (Submit k) s =
     (if k < length (submits s) \<and> snd (submits s ! k) = Calling
         \<and> length (tradeQueue s) < queue_capacity
      then Some (s\<lparr>tradeQueue := tradeQueue s @ [(fst (submits s ! k), k)],
                  submits := (submits s)[k := (fst (submits s ! k), Awaiting)]\<rparr>)
      else None)"
| "step (Dequeue i) s =
     (if i < length (workers s) \<and> workers s ! i = Idle
      then (case tradeQueue s of
              [] \<Rightarrow> None
            | (r, k) # q \<Rightarrow> Some (s\<lparr>tradeQueue := q, workers := (workers s)[i := Dequeued r k]\<rparr>))
      else None)"
| "step (ObserveStop i) s =
     (if i < length (workers s) \<and> workers s ! i = Idle \<and> stopCh s
      then (if wg s = 0 then Some (s\<lparr>fatal := True\<rparr>)
            else Some (s\<lparr>workers := (workers s)[i := Exited], wg := wg s - 1\<rparr>))
      else None)"
| "step (FetchLock i) s =
     (if i < length (workers s)
      then (case workers s ! i of
              Dequeued r k \<Rightarrow>
                Some (s\<lparr>userLocks := lock_entry (UserID r) (userLocks s),
                        workers := (workers s)[i := LockWait r k]\<rparr>)
            | _ \<Rightarrow> None)
      else None)"
| "step (AcquireLock i) s =
     (if i < length (workers s)
      then (case workers s ! i of
              LockWait r k \<Rightarrow>
                (case mutex_lock (UserID r) (userLocks s) of
                   None \<Rightarrow> None
                 | Some m \<Rightarrow> Some (s\<lparr>userLocks := m, workers := (workers s)[i := Executing r k]\<rparr>))
            | _ \<Rightarrow> None)
      else None)"
| "step (Finish i) s =
     (if i < length (workers s)
      then (case workers s ! i of
              Executing r k \<Rightarrow>
                (case UnlockUser (UserID r) (userLocks s) of
                   Fatal \<Rightarrow> Some (s\<lparr>fatal := True\<rparr>)
                 | Returned m \<Rightarrow> Some (s\<lparr>userLocks := m, workers := (workers s)[i := Replying r k]\<rparr>))
            | _ \<Rightarrow> None)
      else None)"
| "step (Reply i) s =
     (if i < length (workers s)
      then (case workers s ! i of
              Replying r k \<Rightarrow>
                if k < length (submits s) \<and> snd (submits s ! k) = Awaiting
                then Some (s\<lparr>workers := (workers s)[i := Idle],
                            submits := (submits s)[k := (fst (submits s ! k), Answered)]\<rparr>)
                else None
            | _ \<Rightarrow> None)
      else None)"
| "step CallStop s =
     (if stopping s = StopNotCalled
      then Some (s\<lparr>stopCh := True, stopping := StopWaiting\<rparr>)
      else None)"
| "step StopReturn s =
     (if stopping s = StopWaiting \<and> wg s = 0
      then Some (s\<lparr>stopping := StopReturned\<rparr>)
      else None)"
| "step (SellBegin j) s =
     (if j < length (sells s) \<and> snd (sells s ! j) = Arrived
      then Some (s\<lparr>sells := (sells s)[j := (fst (sells s ! j), Selling)]\<rparr>)
      else None)"
| "step (SellEnd j) s =
     (if j < length (sells s) \<and> snd (sells s ! j) = Selling
      then Some (s\<lparr>sells := (sells s)[j := (fst (sells s ! j), Responded)]\<rparr>)
      else None)"

text \<open>
  A schedule is the list of steps in the order they happen. Nothing runs after a fatal
  error: it ends the process.
\<close>

fun run :: "event list \<Rightarrow> engine \<Rightarrow> engine option" where
  "run [] s = Some s"
| "run (ev # evs) s =
     (if fatal s then None
      else case step ev s of None \<Rightarrow> None | Some s' \<Rightarrow> run evs s')"

text \<open>The users for whom an execution is in progress, one entry per execution.\<close>

fun worker_execution :: "wstate \<Rightarrow> int list" where
  "worker_execution (Executing r k) = [UserID r]"
| "worker_execution _ = []"

definition worker_executions :: "engine \<Rightarrow> int list" where
  "worker_executions s = concat (map worker_execution (workers s))"

definition sell_executions :: "engine \<Rightarrow> int list" where
  "sell_executions s = concat (map (\<lambda>(r, h). if h = Selling then [UserID r] else []) (sells s))"

text \<open>The request a worker has taken and not yet answered.\<close>

fun in_flight :: "wstate \<Rightarrow> (BuyRequest \<times> nat) option" where
  "in_flight Idle = None"
| "in_flight Exited = None"
| "in_flight (Dequeued r k) = Some (r, k)"
| "in_flight (LockWait r k) = Some (r, k)"
| "in_flight (Executing r k) = Some (r, k)"
| "in_flight (Replying r k) = Some (r, k)"

section \<open>Invariants of the worker pool\<close>

text \<open>The workers that have not returned; the wait group counts them.\<close>

definition live :: "wstate list \<Rightarrow> nat" where
  "live ws = length (filter (\<lambda>w. w \<noteq> Exited) ws)"

definition counted :: "engine \<Rightarrow> bool" where
  "counted s \<longleftrightarrow> wg s = live (workers s)"

text \<open>\<^verbatim>\<open>Stop\<close> returns only from \<^verbatim>\<open>wg.Wait()\<close>, on a counter that is zero.\<close>

definition stop_waited :: "engine \<Rightarrow> bool" where
  "stop_waited s \<longleftrightarrow> (stopping s = StopReturned \<longrightarrow> wg s = 0)"

text \<open>A worker inside the executor has its user's mutex locked.\<close>

definition lock_held :: "engine \<Rightarrow> bool" where
  "lock_held s \<longleftrightarrow>
     (\<forall>i r k. i < length (workers s) \<longrightarrow> workers s ! i = Executing r k
        \<longrightarrow> userLocks s (UserID r) = Some True)"

text \<open>No two workers are inside the executor for the same user.\<close>

definition exclusive :: "engine \<Rightarrow> bool" where
  "exclusive s \<longleftrightarrow>
     (\<forall>i j r k r' k'. i < length (workers s) \<longrightarrow> j < length (workers s) \<longrightarrow> i \<noteq> j
        \<longrightarrow> workers s ! i = Executing r k \<longrightarrow> workers s ! j = Executing r' k'
        \<longrightarrow> UserID r \<noteq> UserID r')"

definition sound :: "engine \<Rightarrow> bool" where
  "sound s \<longleftrightarrow> lock_held s \<and> exclusive s \<and> counted s \<and> stop_waited s \<and> \<not> fatal s"

text \<open>
  The request of a caller that waits is in the queue or in the hands of a worker: none is
  lost on the way.
\<close>

definition accounted :: "engine \<Rightarrow> bool" where
  "accounted s \<longleftrightarrow>
     (\<forall>k. k < length (submits s) \<longrightarrow> snd (submits s ! k) = Awaiting
        \<longrightarrow> (fst (submits s ! k), k) \<in> set (tradeQueue s)
          \<or> (\<exists>i. i < length (workers s) \<and> in_flight (workers s ! i) = Some (fst (submits s ! k), k)))"

section \<open>States that concrete schedules reach\<close>

text \<open>Two workers hold orders of user 1: one is in the executor, the other waits for the lock.\<close>

definition two_workers_one_user :: engine where
  "two_workers_one_user =
     \<lparr>userLocks = [1 \<mapsto> True], tradeQueue = [], stopCh = False, wg = 2,
      workers = [Executing (order 1 ''AAPL'' 1 100) 0, LockWait (order 1 ''MSFT'' 1 100) (Suc 0)],
      submits = [(order 1 ''AAPL'' 1 100, Awaiting), (order 1 ''MSFT'' 1 100, Awaiting)],
      sells = [], stopping = StopNotCalled, fatal = False\<rparr>"

text \<open>Two sells of user 1, for different symbols, both between begin and return.\<close>

definition overlapping_sells :: engine where
  "overlapping_sells =
     \<lparr>userLocks = Map.empty, tradeQueue = [], stopCh = False, wg = 1,
      workers = [Idle], submits = [],
      sells = [(order 1 ''AAPL'' 5 160, Selling), (order 1 ''MSFT'' 2 300, Selling)],
      stopping = StopNotCalled, fatal = False\<rparr>"

text \<open>A worker runs a buy of user 1 under the lock while a sell of user 1 is under way.\<close>

definition buy_during_sell :: engine where
  "buy_during_sell =
     \<lparr>userLocks = [1 \<mapsto> True], tradeQueue = [], stopCh = False, wg = 1,
      workers = [Executing (order 1 ''AAPL'' 1 100) 0],
      submits = [(order 1 ''AAPL'' 1 100, Awaiting)],
      sells = [(order 1 ''AAPL'' 5 160, Selling)],
      stopping = StopNotCalled, fatal = False\<rparr>"

text \<open>\<^verbatim>\<open>Stop\<close> was called while the only order was in flight, and after it was answered.\<close>

definition stop_while_in_flight :: engine where
  "stop_while_in_flight =
     \<lparr>userLocks = Map.empty, tradeQueue = [], stopCh = True, wg = 1,
      workers = [Dequeued (order 1 ''AAPL'' 1 100) 0],
      submits = [(order 1 ''AAPL'' 1 100, Awaiting)],
      sells = [], stopping = StopWaiting, fatal = False\<rparr>"

definition graceful_stop :: engine where
  "graceful_stop =
     \<lparr>userLocks = [1 \<mapsto> False], tradeQueue = [], stopCh = True, wg = 0,
      workers = [Exited], submits = [(order 1 ''AAPL'' 1 100, Answered)],
      sells = [], stopping = StopReturned, fatal = False\<rparr>"

text \<open>
  The only worker returned with an order still in the queue, and \<^verbatim>\<open>Stop\<close> returned; then
  a second caller submitted its order.
\<close>

definition dropped_order :: engine where
  "dropped_order =
     \<lparr>userLocks = Map.empty, tradeQueue = [(order 1 ''AAPL'' 1 100, 0)], stopCh = True,
      wg = 0, workers = [Exited],
      submits = [(order 1 ''AAPL'' 1 100, Awaiting), (order 2 ''MSFT'' 1 100, Calling)],
      sells = [], stopping = StopReturned, fatal = False\<rparr>"

definition dropped_order_later :: engine where
  "dropped_order_later =
     \<lparr>userLocks = Map.empty,
      tradeQueue = [(order 1 ''AAPL'' 1 100, 0), (order 2 ''MSFT'' 1 100, Suc 0)],
      stopCh = True, wg = 0, workers = [Exited],
      submits = [(order 1 ''AAPL'' 1 100, Awaiting), (order 2 ''MSFT'' 1 100, Awaiting)],
      sells = [], stopping = StopReturned, fatal = False\<rparr>"

section \<open>What one execution does to the ledger\<close>

lemmas store_defs = debit_cash_balance_def credit_cash_balance_def upsert_portfolio_def
  delete_portfolio_def update_portfolio_quantity_def insert_trade_def









lemmas eval_defs = processTrade_def SellStock_def Let_def failed_def store_defs no_faults_def
  demo_ledger_def order_def binding_ok_def



section \<open>Average cost of a position\<close>





section \<open>The balance check of a buy\<close>




lemma poor_buy:
  "processTrade (no_faults 1) (order 1 ''AAPL'' 10 150) poor_ledger =
     (failed ''Insufficient funds'', poor_ledger)"
  by (simp add: eval_defs poor_ledger_def)


section \<open>Decimal rendering of the quantities in a message\<close>

lemma digit_inj:
  "n < 10 \<Longrightarrow> m < 10 \<Longrightarrow> ''0123456789'' ! n = ''0123456789'' ! m \<Longrightarrow> n = m"
  by (simp add: nth_eq_iff_index_eq)

lemma digit_in: "n < 10 \<Longrightarrow> ''0123456789'' ! n \<in> set ''0123456789''"
  by (rule nth_mem) simp

lemma digits_not_empty: "digits n \<noteq> []"
  by (subst digits.simps) simp

lemma set_digits: "set (digits n) \<subseteq> set ''0123456789''"
proof (induction n rule: digits.induct)
  case (1 n)
  show ?case
  proof (cases "n < 10")
    case True
    with digit_in [of n] show ?thesis by (subst digits.simps) simp
  next
    case False
    with 1 digit_in [of "n mod 10"] show ?thesis by (subst digits.simps) simp
  qed
qed

lemma digits_inj: "digits n = digits m \<Longrightarrow> n = m"
proof (induction n arbitrary: m rule: digits.induct)
  case (1 n)
  show ?case
  proof (cases "n < 10")
    case n: True
    show ?thesis
    proof (cases "m < 10")
      case True
      with n "1.prems" have "''0123456789'' ! n = ''0123456789'' ! m"
        by (simp add: digits.simps [of n] digits.simps [of m])
      with n True show ?thesis by (rule digit_inj)
    next
      case False
      with n "1.prems" digits_not_empty [of "m div 10"] show ?thesis
        by (simp add: digits.simps [of n] digits.simps [of m])
    qed
  next
    case n: False
    show ?thesis
    proof (cases "m < 10")
      case True
      with n "1.prems" digits_not_empty [of "n div 10"] show ?thesis
        by (simp add: digits.simps [of n] digits.simps [of m])
    next
      case False
      with n "1.prems" have d: "digits (n div 10) = digits (m div 10)"
        and l: "''0123456789'' ! (n mod 10) = ''0123456789'' ! (m mod 10)"
        by (simp_all add: digits.simps [of n] digits.simps [of m])
      from "1.IH" [OF n d] have "n div 10 = m div 10" .
      moreover from l have "n mod 10 = m mod 10" by (intro digit_inj) simp_all
      ultimately show ?thesis by (metis div_mult_mod_eq)
    qed
  qed
qed

lemma fmt_d_inj: "fmt_d i = fmt_d j \<Longrightarrow> i = j"
proof -
  assume eq: "fmt_d i = fmt_d j"
  have no_minus: "CHR ''-'' # xs \<noteq> digits n" for xs n
  proof
    assume "CHR ''-'' # xs = digits n"
    then have "CHR ''-'' \<in> set (digits n)" by (metis list.set_intros(1))
    with set_digits [of n] show False by auto
  qed
  show ?thesis
  proof (cases "i < 0")
    case i: True
    show ?thesis
    proof (cases "j < 0")
      case True
      with i eq have "digits (nat (- i)) = digits (nat (- j))" by (simp add: fmt_d_def)
      then have "nat (- i) = nat (- j)" by (rule digits_inj)
      with i True show ?thesis by simp
    next
      case False
      with i eq no_minus show ?thesis by (simp add: fmt_d_def)
    qed
  next
    case i: False
    show ?thesis
    proof (cases "j < 0")
      case True
      with i eq no_minus [of "digits (nat (- j))" "nat i"] show ?thesis
        by (simp add: fmt_d_def)
    next
      case False
      with i eq have "digits (nat i) = digits (nat j)" by (simp add: fmt_d_def)
      then have "nat i = nat j" by (rule digits_inj)
      with i False show ?thesis by simp
    qed
  qed
qed

lemma comma_not_in_fmt_d: "CHR '','' \<notin> set (fmt_d i)"
  using set_digits [of "nat i"] set_digits [of "nat (- i)"]
  by (auto simp: fmt_d_def)

lemma split_at_separator:
  "c \<notin> set xs \<Longrightarrow> c \<notin> set ys \<Longrightarrow> xs @ c # r1 = ys @ c # r2 \<Longrightarrow> xs = ys \<and> r1 = r2"
proof (induction xs arbitrary: ys)
  case Nil
  then show ?case by (cases ys) auto
next
  case (Cons x xs)
  then show ?case by (cases ys) auto
qed

lemma insufficient_shares_inj:
  assumes "insufficient_shares a b = insufficient_shares c d"
  shows "a = c \<and> b = d"
proof -
  from assms have
    "fmt_d a @ CHR '','' # ('' trying to sell '' @ fmt_d b)
       = fmt_d c @ CHR '','' # ('' trying to sell '' @ fmt_d d)"
    by (simp add: insufficient_shares_def)
  from split_at_separator [OF comma_not_in_fmt_d comma_not_in_fmt_d this]
  have "fmt_d a = fmt_d c" and "fmt_d b = fmt_d d" by simp_all
  then show ?thesis by (simp add: fmt_d_inj)
qed

section \<open>Selling\<close>





text \<open>
  Claim C6. When the request passed the binder, the transaction has begun and the position
  has been read: an owned quantity strictly below the requested one ends the sell with
  status 400 and the message \<^verbatim>\<open>Insufficient shares. You own <owned>, trying to sell
  <requested>\<close>, both numbers in decimal, and the ledger as it was. The message tells both
  numbers: no other pair of quantities gives the same text.
\<close>

theorem C6_insufficient_shares:
  assumes "binding_ok req" and "\<not> fails e TxBegin" and "\<not> fails e SelectPosition"
    and "portfolios db (UserID req, StockSymbol req) = Some (cur, avg)"
    and "cur < Quantity req"
  shows "SellStock e req db =
           ((400, ErrorBody (''Insufficient shares. You own '' @ fmt_d cur
                             @ '', trying to sell '' @ fmt_d (Quantity req))), db)
       \<and> (\<forall>a b. ''Insufficient shares. You own '' @ fmt_d a @ '', trying to sell '' @ fmt_d b
                 = ''Insufficient shares. You own '' @ fmt_d cur
                   @ '', trying to sell '' @ fmt_d (Quantity req)
               \<longrightarrow> a = cur \<and> b = Quantity req)"
proof
  from assms show "SellStock e req db =
           ((400, ErrorBody (''Insufficient shares. You own '' @ fmt_d cur
                             @ '', trying to sell '' @ fmt_d (Quantity req))), db)"
    by (simp add: SellStock_def Let_def insufficient_shares_def)
  show "\<forall>a b. ''Insufficient shares. You own '' @ fmt_d a @ '', trying to sell '' @ fmt_d b
                 = ''Insufficient shares. You own '' @ fmt_d cur
                   @ '', trying to sell '' @ fmt_d (Quantity req)
               \<longrightarrow> a = cur \<and> b = Quantity req"
    using insufficient_shares_inj [unfolded insufficient_shares_def] by blast
qed

lemma fmt_d_10: "fmt_d 10 = ''10''"
  by (simp add: fmt_d_def digits.simps)

lemma fmt_d_11: "fmt_d 11 = ''11''"
  by (simp add: fmt_d_def digits.simps)

text \<open>
  The theorem at work: user 1 owns 10 AAPL and asks to sell 11; a message that reads the
  same for quantities \<open>a\<close> and \<open>b\<close> has \<open>a = 10\<close> and \<open>b = 11\<close>.
\<close>

theorem C6_insufficient_shares_witness:
  "binding_ok (order 1 ''AAPL'' 11 160) \<and> \<not> fails (no_faults 2) TxBegin
   \<and> \<not> fails (no_faults 2) SelectPosition
   \<and> portfolios after_first_buy (1, ''AAPL'') = Some (10, 150) \<and> (10::int) < 11
   \<and> SellStock (no_faults 2) (order 1 ''AAPL'' 11 160) after_first_buy =
        ((400, ErrorBody ''Insufficient shares. You own 10, trying to sell 11''),
         after_first_buy)
   \<and> fmt_d 10 = ''10'' \<and> fmt_d 11 = ''11''"
  using C6_insufficient_shares [of "order 1 ''AAPL'' 11 160" "no_faults 2" after_first_buy 10 150]
    fmt_d_10 fmt_d_11
  by (simp add: order_def no_faults_def binding_ok_def after_first_buy_def)

section \<open>Trade records and balance changes\<close>



section \<open>Failures leave the ledger as it was\<close>

lemma append_one_neq: "xs \<noteq> xs @ [t]"
  by simp






section \<open>The worker pool only buys\<close>



section \<open>Releasing a user's lock\<close>

text \<open>
  Claim C9, as the code has it. \<^verbatim>\<open>UnlockUser\<close> ends in the fatal error of the mutex
  exactly when the user has a lock entry whose mutex is not locked, which is how a second
  release in a row shows. Without an entry it returns and changes nothing. With the mutex
  locked it unlocks it; the registry does not know who locked it, so this is the same for
  every caller.
\<close>

theorem C9_release_outcomes:
  "(m u = None \<longrightarrow> UnlockUser u m = Returned m)
   \<and> (m u = Some False \<longrightarrow> UnlockUser u m = Fatal)
   \<and> (m u = Some True \<longrightarrow> UnlockUser u m = Returned (m(u \<mapsto> False)))
   \<and> (UnlockUser u m = Fatal \<longleftrightarrow> m u = Some False)"
  by (auto simp: UnlockUser_def split: option.splits)

text \<open>
  The theorem at work: user 7 is locked, released, and released again, which is fatal;
  a release for user 8, who never had an entry, returns.
\<close>

theorem C9_release_outcomes_witness:
  "LockUser 7 Map.empty = Some [7 \<mapsto> True]
   \<and> [7 \<mapsto> True] (7::int) = Some True
   \<and> UnlockUser 7 [7 \<mapsto> True] = Returned [7 \<mapsto> False]
   \<and> [7 \<mapsto> False] (7::int) = Some False
   \<and> UnlockUser 7 [7 \<mapsto> False] = Fatal
   \<and> [7 \<mapsto> False] (8::int) = None
   \<and> UnlockUser 8 [7 \<mapsto> False] = Returned [7 \<mapsto> False]"
  using C9_release_outcomes [of "[7 \<mapsto> True]" 7] C9_release_outcomes [of "[7 \<mapsto> False]" 7]
    C9_release_outcomes [of "[7 \<mapsto> False]" 8]
  by (simp add: LockUser_def lock_entry_def mutex_lock_def)

text \<open>
  The claim as the specification states it fails: no lock entry was ever created for
  user 7, nobody holds a lock, and the release returns as if it had succeeded.
\<close>

theorem C9_release_without_entry_counterexample:
  "(Map.empty :: registry) 7 = None \<and> UnlockUser 7 Map.empty = Returned Map.empty"
  by (simp add: UnlockUser_def)

section \<open>Every step keeps the invariants\<close>

lemma live_update_same:
  "i < length ws \<Longrightarrow> ws ! i \<noteq> Exited \<Longrightarrow> w \<noteq> Exited \<Longrightarrow> live (ws[i := w]) = live ws"
  unfolding live_def
proof (induction ws arbitrary: i)
  case Nil
  then show ?case by simp
next
  case (Cons a ws)
  then show ?case by (cases i) auto
qed

lemma live_update_exit:
  "i < length ws \<Longrightarrow> ws ! i \<noteq> Exited \<Longrightarrow> Suc (live (ws[i := Exited])) = live ws"
  unfolding live_def
proof (induction ws arbitrary: i)
  case Nil
  then show ?case by simp
next
  case (Cons a ws)
  then show ?case by (cases i) auto
qed

lemma live_0: "live ws = 0 \<longleftrightarrow> (\<forall>w \<in> set ws. w = Exited)"
  unfolding live_def by (induction ws) auto

lemma live_replicate: "live (replicate n Idle) = n"
  unfolding live_def by (induction n) auto

lemma step_FetchLock:
  assumes "step (FetchLock i) s = Some s'"
  obtains r k where "i < length (workers s)" and "workers s ! i = Dequeued r k"
    and "s' = s\<lparr>userLocks := lock_entry (UserID r) (userLocks s),
                 workers := (workers s)[i := LockWait r k]\<rparr>"
  using assms by (auto split: if_splits wstate.splits)

lemma step_AcquireLock:
  assumes "step (AcquireLock i) s = Some s'"
  obtains r k where "i < length (workers s)" and "workers s ! i = LockWait r k"
    and "userLocks s (UserID r) = Some False"
    and "s' = s\<lparr>userLocks := (userLocks s)(UserID r \<mapsto> True),
                 workers := (workers s)[i := Executing r k]\<rparr>"
  using assms by (auto simp: mutex_lock_def split: if_splits wstate.splits option.splits)

lemma step_Finish:
  assumes "step (Finish i) s = Some s'"
  obtains r k where "i < length (workers s)" and "workers s ! i = Executing r k"
    and "UnlockUser (UserID r) (userLocks s) = Fatal" and "s' = s\<lparr>fatal := True\<rparr>"
  | r k m where "i < length (workers s)" and "workers s ! i = Executing r k"
    and "UnlockUser (UserID r) (userLocks s) = Returned m"
    and "s' = s\<lparr>userLocks := m, workers := (workers s)[i := Replying r k]\<rparr>"
  using assms by (auto split: if_splits wstate.splits unlocked.splits)

lemma step_other_workers:
  assumes "step ev s = Some s'"
    and "\<And>i. ev \<noteq> FetchLock i" and "\<And>i. ev \<noteq> AcquireLock i" and "\<And>i. ev \<noteq> Finish i"
  shows "userLocks s' = userLocks s \<and> length (workers s') = length (workers s)
       \<and> (\<forall>j r k. j < length (workers s) \<longrightarrow> workers s' ! j = Executing r k
             \<longrightarrow> workers s ! j = Executing r k)"
proof (cases ev)
  case (Submit k)
  with assms(1) show ?thesis by (auto split: if_splits)
next
  case (Dequeue i)
  with assms(1) show ?thesis
    by (auto simp: nth_list_update split: if_splits list.splits)
next
  case (ObserveStop i)
  with assms(1) show ?thesis
    by (auto simp: nth_list_update split: if_splits)
next
  case (FetchLock i)
  with assms(2) [of i] show ?thesis by simp
next
  case (AcquireLock i)
  with assms(3) [of i] show ?thesis by simp
next
  case (Finish i)
  with assms(4) [of i] show ?thesis by simp
next
  case (Reply i)
  with assms(1) show ?thesis
    by (auto simp: nth_list_update split: if_splits wstate.splits)
next
  case CallStop
  with assms(1) show ?thesis by (auto split: if_splits)
next
  case StopReturn
  with assms(1) show ?thesis by (auto split: if_splits)
next
  case (SellBegin j)
  with assms(1) show ?thesis by (auto split: if_splits)
next
  case (SellEnd j)
  with assms(1) show ?thesis by (auto split: if_splits)
qed

lemma step_lock_held:
  assumes "lock_held s" and "exclusive s" and "step ev s = Some s'"
  shows "lock_held s'"
proof -
  consider i where "ev = FetchLock i" | i where "ev = AcquireLock i" | i where "ev = Finish i"
    | "\<And>i. ev \<noteq> FetchLock i" "\<And>i. ev \<noteq> AcquireLock i" "\<And>i. ev \<noteq> Finish i"
    by blast
  then show ?thesis
  proof cases
    case 1
    from assms(3) [unfolded 1] obtain r k where i: "i < length (workers s)"
      and s': "s' = s\<lparr>userLocks := lock_entry (UserID r) (userLocks s),
                      workers := (workers s)[i := LockWait r k]\<rparr>"
      by (rule step_FetchLock)
    show ?thesis
      unfolding lock_held_def
    proof (intro allI impI)
      fix j r' k'
      assume j: "j < length (workers s')" and e: "workers s' ! j = Executing r' k'"
      with s' i have "j \<noteq> i" by auto
      with j e s' have "workers s ! j = Executing r' k'" "j < length (workers s)" by auto
      with assms(1) have "userLocks s (UserID r') = Some True"
        unfolding lock_held_def by blast
      with s' show "userLocks s' (UserID r') = Some True"
        by (auto simp: lock_entry_def)
    qed
  next
    case 2
    from assms(3) [unfolded 2] obtain r k where i: "i < length (workers s)"
      and s': "s' = s\<lparr>userLocks := (userLocks s)(UserID r \<mapsto> True),
                      workers := (workers s)[i := Executing r k]\<rparr>"
      by (rule step_AcquireLock)
    show ?thesis
      unfolding lock_held_def
    proof (intro allI impI)
      fix j r' k'
      assume j: "j < length (workers s')" and e: "workers s' ! j = Executing r' k'"
      show "userLocks s' (UserID r') = Some True"
      proof (cases "j = i")
        case True
        with e s' i show ?thesis by simp
      next
        case False
        with j e s' have "workers s ! j = Executing r' k'" "j < length (workers s)" by auto
        with assms(1) have "userLocks s (UserID r') = Some True"
          unfolding lock_held_def by blast
        with s' show ?thesis by simp
      qed
    qed
  next
    case 3
    from assms(3) [unfolded 3] show ?thesis
    proof (cases rule: step_Finish)
      case (1 r k)
      with assms(1) show ?thesis by (simp add: lock_held_def)
    next
      case (2 r k m)
      from assms(1) 2(1,2) have held: "userLocks s (UserID r) = Some True"
        unfolding lock_held_def by blast
      with 2(3) have m: "m = (userLocks s)(UserID r \<mapsto> False)"
        by (simp add: UnlockUser_def)
      show ?thesis
        unfolding lock_held_def
      proof (intro allI impI)
        fix j r' k'
        assume j: "j < length (workers s')" and e: "workers s' ! j = Executing r' k'"
        with 2 have ji: "j \<noteq> i" by auto
        with j e 2 have old: "workers s ! j = Executing r' k'" "j < length (workers s)" by auto
        with assms(1) have t: "userLocks s (UserID r') = Some True"
          unfolding lock_held_def by blast
        from assms(2) ji old 2(1,2) have "UserID r' \<noteq> UserID r"
          unfolding exclusive_def by blast
        with t 2(4) m show "userLocks s' (UserID r') = Some True" by simp
      qed
    qed
  next
    case 4
    from step_other_workers [OF assms(3) 4] assms(1) show ?thesis
      unfolding lock_held_def by metis
  qed
qed

lemma step_exclusive:
  assumes "lock_held s" and "exclusive s" and "step ev s = Some s'"
  shows "exclusive s'"
proof -
  consider i where "ev = FetchLock i" | i where "ev = AcquireLock i" | i where "ev = Finish i"
    | "\<And>i. ev \<noteq> FetchLock i" "\<And>i. ev \<noteq> AcquireLock i" "\<And>i. ev \<noteq> Finish i"
    by blast
  then show ?thesis
  proof cases
    case 1
    from assms(3) [unfolded 1] obtain r k where i: "i < length (workers s)"
      and s': "s' = s\<lparr>userLocks := lock_entry (UserID r) (userLocks s),
                      workers := (workers s)[i := LockWait r k]\<rparr>"
      by (rule step_FetchLock)
    have keep: "workers s ! j = Executing r' k' \<and> j < length (workers s)"
      if "j < length (workers s')" "workers s' ! j = Executing r' k'" for j r' k'
      using that s' i by (cases "j = i") auto
    show ?thesis
      unfolding exclusive_def using keep assms(2) [unfolded exclusive_def] by blast
  next
    case 2
    from assms(3) [unfolded 2] obtain r k where i: "i < length (workers s)"
      and free: "userLocks s (UserID r) = Some False"
      and s': "s' = s\<lparr>userLocks := (userLocks s)(UserID r \<mapsto> True),
                      workers := (workers s)[i := Executing r k]\<rparr>"
      by (rule step_AcquireLock)
    have other: "workers s ! j = Executing r' k' \<and> j < length (workers s)
                   \<and> UserID r' \<noteq> UserID r"
      if "j < length (workers s')" "workers s' ! j = Executing r' k'" "j \<noteq> i" for j r' k'
    proof -
      from that s' have old: "workers s ! j = Executing r' k'" "j < length (workers s)" by auto
      with assms(1) have "userLocks s (UserID r') = Some True"
        unfolding lock_held_def by blast
      with free have "UserID r' \<noteq> UserID r" by auto
      with old show ?thesis by simp
    qed
    have new: "r' = r" if "workers s' ! i = Executing r' k'" for r' k'
      using that s' i by simp
    show ?thesis
      unfolding exclusive_def
    proof (intro allI impI)
      fix a b ra ka rb kb
      assume a: "a < length (workers s')" and b: "b < length (workers s')" and ab: "a \<noteq> b"
        and ea: "workers s' ! a = Executing ra ka" and eb: "workers s' ! b = Executing rb kb"
      show "UserID ra \<noteq> UserID rb"
      proof (cases "a = i")
        case True
        with ab have "b \<noteq> i" by simp
        from other [OF b eb this] new [of ra ka] ea True show ?thesis by auto
      next
        case False
        note ai = this
        show ?thesis
        proof (cases "b = i")
          case True
          from other [OF a ea ai] new [of rb kb] eb True show ?thesis by auto
        next
          case False
          from other [OF a ea ai] other [OF b eb False] ab assms(2)
          show ?thesis unfolding exclusive_def by blast
        qed
      qed
    qed
  next
    case 3
    from assms(3) [unfolded 3] show ?thesis
    proof (cases rule: step_Finish)
      case (1 r k)
      with assms(2) show ?thesis by (simp add: exclusive_def)
    next
      case (2 r k m)
      have keep: "workers s ! j = Executing r' k' \<and> j < length (workers s)"
        if "j < length (workers s')" "workers s' ! j = Executing r' k'" for j r' k'
        using that 2 by (cases "j = i") auto
      show ?thesis
        unfolding exclusive_def using keep assms(2) [unfolded exclusive_def] by blast
    qed
  next
    case 4
    from step_other_workers [OF assms(3) 4] assms(2) show ?thesis
      unfolding exclusive_def by metis
  qed
qed

lemma live_pos: "i < length ws \<Longrightarrow> ws ! i \<noteq> Exited \<Longrightarrow> 0 < live ws"
  using live_update_exit [of i ws] by simp

lemma step_counted:
  assumes "counted s" and "step ev s = Some s'"
  shows "counted s'"
proof (cases ev)
  case (Submit k)
  with assms show ?thesis by (auto simp: counted_def split: if_splits)
next
  case (Dequeue i)
  with assms show ?thesis
    by (auto simp: counted_def live_update_same split: if_splits list.splits)
next
  case (ObserveStop i)
  with assms live_update_exit [of i "workers s"] show ?thesis
    by (auto simp: counted_def split: if_splits)
next
  case (FetchLock i)
  with assms show ?thesis
    by (auto simp: counted_def live_update_same split: if_splits wstate.splits)
next
  case (AcquireLock i)
  with assms show ?thesis
    by (auto simp: counted_def live_update_same split: if_splits wstate.splits option.splits)
next
  case (Finish i)
  with assms show ?thesis
    by (auto simp: counted_def live_update_same split: if_splits wstate.splits unlocked.splits)
next
  case (Reply i)
  with assms show ?thesis
    by (auto simp: counted_def live_update_same split: if_splits wstate.splits)
next
  case CallStop
  with assms show ?thesis by (auto simp: counted_def split: if_splits)
next
  case StopReturn
  with assms show ?thesis by (auto simp: counted_def split: if_splits)
next
  case (SellBegin j)
  with assms show ?thesis by (auto simp: counted_def split: if_splits)
next
  case (SellEnd j)
  with assms show ?thesis by (auto simp: counted_def split: if_splits)
qed

lemma step_wg_le:
  assumes "step ev s = Some s'"
  shows "wg s' \<le> wg s \<and> length (workers s') = length (workers s)
       \<and> (stopping s = StopReturned \<longrightarrow> stopping s' = StopReturned)
       \<and> (stopping s' = StopReturned \<longrightarrow> stopping s = StopReturned \<or> wg s = 0)"
proof (cases ev)
  case (Submit k)
  with assms show ?thesis by (auto split: if_splits)
next
  case (Dequeue i)
  with assms show ?thesis by (auto split: if_splits list.splits)
next
  case (ObserveStop i)
  with assms show ?thesis by (auto split: if_splits)
next
  case (FetchLock i)
  with assms show ?thesis by (auto split: if_splits wstate.splits)
next
  case (AcquireLock i)
  with assms show ?thesis by (auto split: if_splits wstate.splits option.splits)
next
  case (Finish i)
  with assms show ?thesis by (auto split: if_splits wstate.splits unlocked.splits)
next
  case (Reply i)
  with assms show ?thesis by (auto split: if_splits wstate.splits)
next
  case CallStop
  with assms show ?thesis by (auto split: if_splits)
next
  case StopReturn
  with assms show ?thesis by (auto split: if_splits)
next
  case (SellBegin j)
  with assms show ?thesis by (auto split: if_splits)
next
  case (SellEnd j)
  with assms show ?thesis by (auto split: if_splits)
qed

lemma step_stop_waited:
  assumes "stop_waited s" and "step ev s = Some s'"
  shows "stop_waited s'"
  using step_wg_le [OF assms(2)] assms(1) unfolding stop_waited_def by auto

lemma step_not_fatal:
  assumes "lock_held s" and "counted s" and "\<not> fatal s" and "step ev s = Some s'"
  shows "\<not> fatal s'"
proof (cases ev)
  case (Submit k)
  with assms show ?thesis by (auto split: if_splits)
next
  case (Dequeue i)
  with assms show ?thesis by (auto split: if_splits list.splits)
next
  case (ObserveStop i)
  with assms live_pos [of i "workers s"] show ?thesis
    by (auto simp: counted_def split: if_splits)
next
  case (FetchLock i)
  with assms show ?thesis by (auto split: if_splits wstate.splits)
next
  case (AcquireLock i)
  with assms show ?thesis by (auto split: if_splits wstate.splits option.splits)
next
  case (Finish i)
  from assms(4) [unfolded Finish] show ?thesis
  proof (cases rule: step_Finish)
    case (1 r k)
    with assms(1) have "userLocks s (UserID r) = Some True"
      unfolding lock_held_def by blast
    with 1(3) show ?thesis by (simp add: UnlockUser_def)
  next
    case (2 r k m)
    with assms(3) show ?thesis by simp
  qed
next
  case (Reply i)
  with assms show ?thesis by (auto split: if_splits wstate.splits)
next
  case CallStop
  with assms show ?thesis by (auto split: if_splits)
next
  case StopReturn
  with assms show ?thesis by (auto split: if_splits)
next
  case (SellBegin j)
  with assms show ?thesis by (auto split: if_splits)
next
  case (SellEnd j)
  with assms show ?thesis by (auto split: if_splits)
qed

section \<open>Same-user executions\<close>

lemma step_sound:
  assumes "sound s" and "step ev s = Some s'"
  shows "sound s'"
  using assms step_lock_held [of s ev s'] step_exclusive [of s ev s'] step_counted [of s ev s']
    step_stop_waited [of s ev s'] step_not_fatal [of s ev s']
  unfolding sound_def by blast

lemma run_sound:
  "sound s \<Longrightarrow> run sched s = Some s' \<Longrightarrow> sound s'"
proof (induction sched arbitrary: s)
  case Nil
  then show ?case by simp
next
  case (Cons ev sched)
  from Cons.prems(2) obtain t where t: "step ev s = Some t" and r: "run sched t = Some s'"
    by (auto split: if_splits option.splits)
  from step_sound [OF Cons.prems(1) t] Cons.IH r show ?case by blast
qed

lemma run_length_workers:
  "run sched s = Some s' \<Longrightarrow> length (workers s') = length (workers s)"
proof (induction sched arbitrary: s)
  case Nil
  then show ?case by simp
next
  case (Cons ev sched)
  from Cons.prems obtain t where t: "step ev s = Some t" and r: "run sched t = Some s'"
    by (auto split: if_splits option.splits)
  from step_wg_le [OF t] Cons.IH [OF r] show ?case by simp
qed

lemma sound_started: "sound (started n buys sales)"
  by (simp add: sound_def lock_held_def exclusive_def counted_def stop_waited_def started_def
        live_replicate)

lemma worker_execution_iff:
  "u \<in> set (worker_execution w) \<longleftrightarrow> (\<exists>r k. w = Executing r k \<and> u = UserID r)"
  by (cases w) auto

lemma worker_executions_iff:
  "u \<in> set (concat (map worker_execution ws)) \<longleftrightarrow>
     (\<exists>j r k. j < length ws \<and> ws ! j = Executing r k \<and> u = UserID r)"
proof -
  have "u \<in> set (concat (map worker_execution ws)) \<longleftrightarrow>
          (\<exists>w \<in> set ws. \<exists>r k. w = Executing r k \<and> u = UserID r)"
    by (simp add: worker_execution_iff)
  also have "\<dots> \<longleftrightarrow> (\<exists>j r k. j < length ws \<and> ws ! j = Executing r k \<and> u = UserID r)"
    by (metis in_set_conv_nth)
  finally show ?thesis .
qed

lemma distinct_worker_execution: "distinct (worker_execution w)"
  by (cases w) simp_all

lemma distinct_executions:
  assumes "\<And>i j r k r' k'. i < length ws \<Longrightarrow> j < length ws \<Longrightarrow> i \<noteq> j
             \<Longrightarrow> ws ! i = Executing r k \<Longrightarrow> ws ! j = Executing r' k' \<Longrightarrow> UserID r \<noteq> UserID r'"
  shows "distinct (concat (map worker_execution ws))"
  using assms
proof (induction ws)
  case Nil
  then show ?case by simp
next
  case (Cons a ws)
  have tl: "distinct (concat (map worker_execution ws))"
  proof (rule Cons.IH)
    fix i j r k r' k'
    assume "i < length ws" "j < length ws" "i \<noteq> j"
      "ws ! i = Executing r k" "ws ! j = Executing r' k'"
    then show "UserID r \<noteq> UserID r'"
      using Cons.prems [of "Suc i" "Suc j" r k r' k'] by simp
  qed
  have apart: "set (worker_execution a) \<inter> set (concat (map worker_execution ws)) = {}"
  proof (rule ccontr)
    assume "set (worker_execution a) \<inter> set (concat (map worker_execution ws)) \<noteq> {}"
    then obtain u where ua: "u \<in> set (worker_execution a)"
      and uw: "u \<in> set (concat (map worker_execution ws))"
      by blast
    from ua obtain r k where a: "a = Executing r k" "u = UserID r"
      by (auto simp: worker_execution_iff)
    from uw obtain j r' k' where j: "j < length ws" "ws ! j = Executing r' k'" "u = UserID r'"
      unfolding worker_executions_iff by blast
    from Cons.prems [of 0 "Suc j" r k r' k'] a j show False by simp
  qed
  from tl apart distinct_worker_execution [of a] show ?case by simp
qed

text \<open>
  Claim C1, for the worker pool. Whatever the number \<open>n\<close> of workers, the requests
  submitted and the schedule: two workers are never inside the executor for the same user
  at once, and while a worker is inside the executor the mutex of its user is locked. (The
  sell handler is not part of this: it takes no lock.)
\<close>

theorem C1_worker_pool_exclusion:
  assumes "run sched (started n buys sales) = Some s"
  shows "length (workers s) = n
       \<and> (\<forall>i j r k r' k'. i < n \<and> j < n \<and> i \<noteq> j
             \<and> workers s ! i = Executing r k \<and> workers s ! j = Executing r' k'
            \<longrightarrow> UserID r \<noteq> UserID r')
       \<and> (\<forall>i r k. i < n \<and> workers s ! i = Executing r k
            \<longrightarrow> userLocks s (UserID r) = Some True)
       \<and> distinct (worker_executions s)"
proof -
  from run_sound [OF sound_started assms] have ex: "exclusive s" and held: "lock_held s"
    by (simp_all add: sound_def)
  from run_length_workers [OF assms] have len: "length (workers s) = n"
    by (simp add: started_def)
  from ex have "distinct (worker_executions s)"
    unfolding worker_executions_def exclusive_def
    by (intro distinct_executions) blast
  with ex held len show ?thesis
    unfolding exclusive_def lock_held_def by blast
qed

lemma run_two_workers_one_user:
  "run [Submit 0, Submit (Suc 0), Dequeue 0, Dequeue (Suc 0), FetchLock 0, FetchLock (Suc 0),
        AcquireLock 0]
     (started 2 [order 1 ''AAPL'' 1 100, order 1 ''MSFT'' 1 100] []) = Some two_workers_one_user"
  by (simp add: started_def two_workers_one_user_def order_def queue_capacity_def
        lock_entry_def mutex_lock_def numeral_2_eq_2)

text \<open>
  The theorem at work: two workers take two orders of user 1; the first locks the user's
  mutex and enters the executor, and the second cannot lock it until the first is done.
\<close>

theorem C1_worker_pool_exclusion_witness:
  "run [Submit 0, Submit (Suc 0), Dequeue 0, Dequeue (Suc 0), FetchLock 0, FetchLock (Suc 0),
        AcquireLock 0]
     (started 2 [order 1 ''AAPL'' 1 100, order 1 ''MSFT'' 1 100] []) = Some two_workers_one_user
   \<and> length (workers two_workers_one_user) = 2
   \<and> userLocks two_workers_one_user 1 = Some True
   \<and> worker_executions two_workers_one_user = [1]
   \<and> step (AcquireLock (Suc 0)) two_workers_one_user = None
   \<and> distinct (worker_executions two_workers_one_user)"
  using C1_worker_pool_exclusion [OF run_two_workers_one_user] run_two_workers_one_user
  by (simp add: two_workers_one_user_def worker_executions_def order_def mutex_lock_def)

text \<open>
  The claim as the specification states it, with the sell entry point included, fails: two
  sells of user 1 are between begin and return at the same time, and so are a sell of user
  1 and a buy of user 1 that a worker runs under the user's lock.
\<close>

theorem C1_sell_overlap_counterexample:
  "run [SellBegin 0, SellBegin (Suc 0)]
     (started 1 [] [order 1 ''AAPL'' 5 160, order 1 ''MSFT'' 2 300]) = Some overlapping_sells
   \<and> sell_executions overlapping_sells = [1, 1]
   \<and> \<not> distinct (worker_executions overlapping_sells @ sell_executions overlapping_sells)
   \<and> run [Submit 0, Dequeue 0, FetchLock 0, AcquireLock 0, SellBegin 0]
     (started 1 [order 1 ''AAPL'' 1 100] [order 1 ''AAPL'' 5 160]) = Some buy_during_sell
   \<and> worker_executions buy_during_sell = [1] \<and> sell_executions buy_during_sell = [1]
   \<and> \<not> distinct (worker_executions buy_during_sell @ sell_executions buy_during_sell)"
  by (simp add: started_def overlapping_sells_def buy_during_sell_def order_def
        queue_capacity_def lock_entry_def mutex_lock_def worker_executions_def
        sell_executions_def)

section \<open>Stopping the pool\<close>

lemma step_Reply:
  assumes "step (Reply i) s = Some s'"
  obtains r k where "i < length (workers s)" and "workers s ! i = Replying r k"
    and "k < length (submits s)" and "snd (submits s ! k) = Awaiting"
    and "s' = s\<lparr>workers := (workers s)[i := Idle],
                 submits := (submits s)[k := (fst (submits s ! k), Answered)]\<rparr>"
  using assms by (auto split: if_splits wstate.splits)

lemma step_Dequeue:
  assumes "step (Dequeue i) s = Some s'"
  obtains r k q where "i < length (workers s)" and "workers s ! i = Idle"
    and "tradeQueue s = (r, k) # q"
    and "s' = s\<lparr>tradeQueue := q, workers := (workers s)[i := Dequeued r k]\<rparr>"
  using assms by (auto split: if_splits list.splits)

lemma step_Submit:
  assumes "step (Submit k) s = Some s'"
  shows "k < length (submits s) \<and> snd (submits s ! k) = Calling
    \<and> s' = s\<lparr>tradeQueue := tradeQueue s @ [(fst (submits s ! k), k)],
                 submits := (submits s)[k := (fst (submits s ! k), Awaiting)]\<rparr>"
  using assms by (auto split: if_splits)

text \<open>Steps that neither take from the queue, nor answer, nor submit keep what is in flight.\<close>

lemma step_keeps_in_flight:
  assumes "step ev s = Some s'"
    and "\<And>i. ev \<noteq> Reply i" and "\<And>i. ev \<noteq> Dequeue i" and "\<And>k. ev \<noteq> Submit k"
  shows "submits s' = submits s \<and> tradeQueue s' = tradeQueue s
       \<and> length (workers s') = length (workers s)
       \<and> (\<forall>j. j < length (workers s) \<longrightarrow> in_flight (workers s' ! j) = in_flight (workers s ! j))"
proof (cases ev)
  case (Submit k)
  with assms(4) [of k] show ?thesis by simp
next
  case (Dequeue i)
  with assms(3) [of i] show ?thesis by simp
next
  case (ObserveStop i)
  with assms(1) show ?thesis
    by (auto simp: nth_list_update split: if_splits)
next
  case (FetchLock i)
  with assms(1) show ?thesis
    by (auto simp: nth_list_update split: if_splits wstate.splits)
next
  case (AcquireLock i)
  with assms(1) show ?thesis
    by (auto simp: nth_list_update split: if_splits wstate.splits option.splits)
next
  case (Finish i)
  with assms(1) show ?thesis
    by (auto simp: nth_list_update split: if_splits wstate.splits unlocked.splits)
next
  case (Reply i)
  with assms(2) [of i] show ?thesis by simp
next
  case CallStop
  with assms(1) show ?thesis by (auto split: if_splits)
next
  case StopReturn
  with assms(1) show ?thesis by (auto split: if_splits)
next
  case (SellBegin j)
  with assms(1) show ?thesis by (auto split: if_splits)
next
  case (SellEnd j)
  with assms(1) show ?thesis by (auto split: if_splits)
qed

lemma step_accounted:
  assumes "accounted s" and "step ev s = Some s'"
  shows "accounted s'"
proof -
  consider i where "ev = Reply i" | i where "ev = Dequeue i" | k where "ev = Submit k"
    | "\<And>i. ev \<noteq> Reply i" "\<And>i. ev \<noteq> Dequeue i" "\<And>k. ev \<noteq> Submit k"
    by blast
  then show ?thesis
  proof cases
    case 1
    from assms(2) [unfolded 1] obtain r k where i: "i < length (workers s)"
      and w: "workers s ! i = Replying r k" and k: "k < length (submits s)"
      and s': "s' = s\<lparr>workers := (workers s)[i := Idle],
                      submits := (submits s)[k := (fst (submits s ! k), Answered)]\<rparr>"
      by (rule step_Reply)
    show ?thesis
      unfolding accounted_def
    proof (intro allI impI)
      fix k'
      assume k': "k' < length (submits s')" and a: "snd (submits s' ! k') = Awaiting"
      from a s' k k' have ne: "k' \<noteq> k" by (auto simp: nth_list_update split: if_splits)
      with s' k' a have old: "k' < length (submits s)" "snd (submits s ! k') = Awaiting"
        and same: "fst (submits s' ! k') = fst (submits s ! k')"
        by simp_all
      from assms(1) old consider
          "(fst (submits s ! k'), k') \<in> set (tradeQueue s)"
        | j where "j < length (workers s)"
            "in_flight (workers s ! j) = Some (fst (submits s ! k'), k')"
        unfolding accounted_def by blast
      then show "(fst (submits s' ! k'), k') \<in> set (tradeQueue s')
          \<or> (\<exists>i. i < length (workers s')
                \<and> in_flight (workers s' ! i) = Some (fst (submits s' ! k'), k'))"
      proof cases
        case 1
        with same s' show ?thesis by simp
      next
        case 2
        with w ne have "j \<noteq> i" by auto
        with 2 s' same have "j < length (workers s')
            \<and> in_flight (workers s' ! j) = Some (fst (submits s' ! k'), k')"
          by simp
        then show ?thesis by blast
      qed
    qed
  next
    case 2
    from assms(2) [unfolded 2] obtain r k q where i: "i < length (workers s)"
      and w: "workers s ! i = Idle" and q: "tradeQueue s = (r, k) # q"
      and s': "s' = s\<lparr>tradeQueue := q, workers := (workers s)[i := Dequeued r k]\<rparr>"
      by (rule step_Dequeue)
    show ?thesis
      unfolding accounted_def
    proof (intro allI impI)
      fix k'
      assume k': "k' < length (submits s')" and a: "snd (submits s' ! k') = Awaiting"
      with s' have old: "k' < length (submits s)" "snd (submits s ! k') = Awaiting"
        and same: "fst (submits s' ! k') = fst (submits s ! k')"
        by simp_all
      from assms(1) old have "(fst (submits s ! k'), k') \<in> set (tradeQueue s)
          \<or> (\<exists>j. j < length (workers s)
                \<and> in_flight (workers s ! j) = Some (fst (submits s ! k'), k'))"
        unfolding accounted_def by blast
      then consider
          "(fst (submits s ! k'), k') = (r, k)"
        | "(fst (submits s ! k'), k') \<in> set q"
        | j where "j < length (workers s)"
            "in_flight (workers s ! j) = Some (fst (submits s ! k'), k')"
        unfolding q by auto
      then show "(fst (submits s' ! k'), k') \<in> set (tradeQueue s')
          \<or> (\<exists>i. i < length (workers s')
                \<and> in_flight (workers s' ! i) = Some (fst (submits s' ! k'), k'))"
      proof cases
        case 1
        with s' i same have "i < length (workers s')
            \<and> in_flight (workers s' ! i) = Some (fst (submits s' ! k'), k')"
          by auto
        then show ?thesis by blast
      next
        case 2
        with same s' show ?thesis by simp
      next
        case 3
        with w have "j \<noteq> i" by auto
        with 3 s' same have "j < length (workers s')
            \<and> in_flight (workers s' ! j) = Some (fst (submits s' ! k'), k')"
          by simp
        then show ?thesis by blast
      qed
    qed
  next
    case 3
    from step_Submit [OF assms(2) [unfolded 3]] have k: "k < length (submits s)"
      and s': "s' = s\<lparr>tradeQueue := tradeQueue s @ [(fst (submits s ! k), k)],
                      submits := (submits s)[k := (fst (submits s ! k), Awaiting)]\<rparr>"
      by simp_all
    show ?thesis
      unfolding accounted_def
    proof (intro allI impI)
      fix k'
      assume k': "k' < length (submits s')" and a: "snd (submits s' ! k') = Awaiting"
      show "(fst (submits s' ! k'), k') \<in> set (tradeQueue s')
          \<or> (\<exists>i. i < length (workers s')
                \<and> in_flight (workers s' ! i) = Some (fst (submits s' ! k'), k'))"
      proof (cases "k' = k")
        case True
        with s' k show ?thesis by simp
      next
        case False
        with s' k' a have old: "k' < length (submits s)" "snd (submits s ! k') = Awaiting"
          and same: "fst (submits s' ! k') = fst (submits s ! k')"
          by simp_all
        from assms(1) old have "(fst (submits s ! k'), k') \<in> set (tradeQueue s)
          \<or> (\<exists>i. i < length (workers s)
                \<and> in_flight (workers s ! i) = Some (fst (submits s ! k'), k'))"
          unfolding accounted_def by blast
        with same s' show ?thesis by simp
      qed
    qed
  next
    case 4
    from step_keeps_in_flight [OF assms(2) 4]
    have sub: "submits s' = submits s" and qu: "tradeQueue s' = tradeQueue s"
      and len: "length (workers s') = length (workers s)"
      and fl: "\<And>j. j < length (workers s) \<Longrightarrow> in_flight (workers s' ! j) = in_flight (workers s ! j)"
      by simp_all
    show ?thesis
      unfolding accounted_def
    proof (intro allI impI)
      fix k'
      assume k': "k' < length (submits s')" and a: "snd (submits s' ! k') = Awaiting"
      with sub assms(1) consider
          "(fst (submits s ! k'), k') \<in> set (tradeQueue s)"
        | j where "j < length (workers s)"
            "in_flight (workers s ! j) = Some (fst (submits s ! k'), k')"
        unfolding accounted_def by auto
      then show "(fst (submits s' ! k'), k') \<in> set (tradeQueue s')
          \<or> (\<exists>i. i < length (workers s')
                \<and> in_flight (workers s' ! i) = Some (fst (submits s' ! k'), k'))"
      proof cases
        case 1
        with sub qu show ?thesis by simp
      next
        case 2
        with fl [of j] len sub have "j < length (workers s')
            \<and> in_flight (workers s' ! j) = Some (fst (submits s' ! k'), k')"
          by simp
        then show ?thesis by blast
      qed
    qed
  qed
qed

lemma run_accounted:
  "accounted s \<Longrightarrow> run sched s = Some s' \<Longrightarrow> accounted s'"
proof (induction sched arbitrary: s)
  case Nil
  then show ?case by simp
next
  case (Cons ev sched)
  from Cons.prems(2) obtain t where t: "step ev s = Some t" and r: "run sched t = Some s'"
    by (auto split: if_splits option.splits)
  from step_accounted [OF Cons.prems(1) t] Cons.IH r show ?case by blast
qed

lemma accounted_started: "accounted (started n buys sales)"
  by (simp add: accounted_def started_def)

text \<open>Once every worker has returned, no request leaves the queue and no caller is answered.\<close>

lemma step_after_exit:
  assumes "\<forall>w \<in> set (workers s). w = Exited" and "step ev s = Some s'"
  shows "(\<forall>w \<in> set (workers s'). w = Exited)
       \<and> length (submits s') = length (submits s)
       \<and> (\<forall>k. k < length (submits s) \<longrightarrow> snd (submits s ! k) = Awaiting
             \<longrightarrow> submits s' ! k = submits s ! k)
       \<and> set (tradeQueue s) \<subseteq> set (tradeQueue s')"
proof -
  have ex: "workers s ! i = Exited" if "i < length (workers s)" for i
    using assms(1) that by simp
  show ?thesis
  proof (cases ev)
    case (Submit k)
    with assms show ?thesis
      by (auto simp: nth_list_update split: if_splits)
  next
    case (Dequeue i)
    with assms(2) ex [of i] show ?thesis by (auto split: if_splits)
  next
    case (ObserveStop i)
    with assms(2) ex [of i] show ?thesis by (auto split: if_splits)
  next
    case (FetchLock i)
    with assms(2) ex [of i] show ?thesis by (auto split: if_splits)
  next
    case (AcquireLock i)
    with assms(2) ex [of i] show ?thesis by (auto split: if_splits)
  next
    case (Finish i)
    with assms(2) ex [of i] show ?thesis by (auto split: if_splits)
  next
    case (Reply i)
    with assms(2) ex [of i] show ?thesis by (auto split: if_splits)
  next
    case CallStop
    with assms show ?thesis by (auto split: if_splits)
  next
    case StopReturn
    with assms show ?thesis by (auto split: if_splits)
  next
    case (SellBegin j)
    with assms show ?thesis by (auto split: if_splits)
  next
    case (SellEnd j)
    with assms show ?thesis by (auto split: if_splits)
  qed
qed

lemma run_after_exit:
  assumes "\<forall>w \<in> set (workers s). w = Exited" and "run sched s = Some s'"
    and "k < length (submits s)" and "snd (submits s ! k) = Awaiting"
    and "(fst (submits s ! k), k) \<in> set (tradeQueue s)"
  shows "snd (submits s' ! k) = Awaiting \<and> (fst (submits s ! k), k) \<in> set (tradeQueue s')"
  using assms
proof (induction sched arbitrary: s)
  case Nil
  then show ?case by simp
next
  case (Cons ev sched)
  from Cons.prems(2) obtain t where t: "step ev s = Some t" and r: "run sched t = Some s'"
    by (auto split: if_splits option.splits)
  from step_after_exit [OF Cons.prems(1) t] Cons.prems(3,4,5)
  have ex: "\<forall>w \<in> set (workers t). w = Exited" and k: "k < length (submits t)"
    and same: "submits t ! k = submits s ! k"
    and q: "(fst (submits s ! k), k) \<in> set (tradeQueue t)"
    by auto
  from same Cons.prems(4) have a: "snd (submits t ! k) = Awaiting" by simp
  from same q have q': "(fst (submits t ! k), k) \<in> set (tradeQueue t)" by simp
  from Cons.IH [OF ex r k a q'] same show ?case by simp
qed

text \<open>
  Claim C8, as the code has it. When \<^verbatim>\<open>Stop\<close> has returned, every worker has returned and
  none holds a request: each request a worker took has been answered. A caller that is
  still waiting then has its request in the queue, where it was never taken; and whatever
  happens afterwards, that caller keeps waiting and the request stays in the queue.
\<close>

theorem C8_stop_waits_for_in_flight:
  assumes "run sched (started n buys sales) = Some s" and "stopping s = StopReturned"
  shows "length (workers s) = n
       \<and> (\<forall>i. i < n \<longrightarrow> workers s ! i = Exited \<and> in_flight (workers s ! i) = None)
       \<and> (\<forall>k. k < length (submits s) \<and> snd (submits s ! k) = Awaiting
            \<longrightarrow> (fst (submits s ! k), k) \<in> set (tradeQueue s))
       \<and> (\<forall>sched' s' k. run sched' s = Some s' \<and> k < length (submits s)
              \<and> snd (submits s ! k) = Awaiting
            \<longrightarrow> snd (submits s' ! k) = Awaiting
              \<and> (fst (submits s ! k), k) \<in> set (tradeQueue s'))"
proof -
  from run_sound [OF sound_started assms(1)] assms(2) have "live (workers s) = 0"
    by (simp add: sound_def counted_def stop_waited_def)
  then have exited: "\<forall>w \<in> set (workers s). w = Exited"
    by (simp add: live_0)
  from run_length_workers [OF assms(1)] have len: "length (workers s) = n"
    by (simp add: started_def)
  have each: "workers s ! i = Exited \<and> in_flight (workers s ! i) = None" if "i < n" for i
  proof -
    from len that have "workers s ! i \<in> set (workers s)" by simp
    with exited have "workers s ! i = Exited" by blast
    then show ?thesis by simp
  qed
  have queued: "(fst (submits s ! k), k) \<in> set (tradeQueue s)"
    if "k < length (submits s)" "snd (submits s ! k) = Awaiting" for k
  proof -
    from run_accounted [OF accounted_started assms(1)] that
    consider "(fst (submits s ! k), k) \<in> set (tradeQueue s)"
      | i where "i < length (workers s)" "in_flight (workers s ! i) = Some (fst (submits s ! k), k)"
      unfolding accounted_def by blast
    then show ?thesis
    proof cases
      case 1
      then show ?thesis .
    next
      case 2
      with each [of i] len show ?thesis by simp
    qed
  qed
  have forever: "snd (submits s' ! k) = Awaiting \<and> (fst (submits s ! k), k) \<in> set (tradeQueue s')"
    if "run sched' s = Some s'" "k < length (submits s)" "snd (submits s ! k) = Awaiting"
    for sched' s' k
    using run_after_exit [OF exited that queued [OF that(2,3)]] .
  from len each queued forever show ?thesis by blast
qed

lemma run_graceful_stop:
  "run [Submit 0, Dequeue 0, CallStop, FetchLock 0, AcquireLock 0, Finish 0, Reply 0,
        ObserveStop 0, StopReturn]
     (started 1 [order 1 ''AAPL'' 1 100] []) = Some graceful_stop"
  by (simp add: started_def graceful_stop_def order_def queue_capacity_def
        lock_entry_def mutex_lock_def UnlockUser_def)

lemma run_stop_while_in_flight:
  "run [Submit 0, Dequeue 0, CallStop] (started 1 [order 1 ''AAPL'' 1 100] [])
     = Some stop_while_in_flight"
  by (simp add: started_def stop_while_in_flight_def order_def queue_capacity_def)

lemma run_dropped_order:
  "run [Submit 0, CallStop, ObserveStop 0, StopReturn]
     (started 1 [order 1 ''AAPL'' 1 100, order 2 ''MSFT'' 1 100] []) = Some dropped_order"
  by (simp add: started_def dropped_order_def order_def queue_capacity_def)

lemma run_dropped_order_later:
  "run [Submit (Suc 0)] dropped_order = Some dropped_order_later"
  by (simp add: dropped_order_def dropped_order_later_def order_def queue_capacity_def)

text \<open>
  The theorem at work. With one worker and one order: \<^verbatim>\<open>Stop\<close> is called while the order is
  in flight and cannot return there; it returns after the order has been answered and the
  worker has returned. With an order still in the queue when the worker returns:
  \<^verbatim>\<open>Stop\<close> returns, and the order is still there, unanswered, after a later step.
\<close>

theorem C8_stop_waits_for_in_flight_witness:
  "run [Submit 0, Dequeue 0, CallStop] (started 1 [order 1 ''AAPL'' 1 100] [])
     = Some stop_while_in_flight
   \<and> step StopReturn stop_while_in_flight = None
   \<and> run [Submit 0, Dequeue 0, CallStop, FetchLock 0, AcquireLock 0, Finish 0, Reply 0,
        ObserveStop 0, StopReturn]
     (started 1 [order 1 ''AAPL'' 1 100] []) = Some graceful_stop
   \<and> stopping graceful_stop = StopReturned
   \<and> workers graceful_stop = [Exited]
   \<and> submits graceful_stop = [(order 1 ''AAPL'' 1 100, Answered)]
   \<and> run [Submit 0, CallStop, ObserveStop 0, StopReturn]
     (started 1 [order 1 ''AAPL'' 1 100, order 2 ''MSFT'' 1 100] []) = Some dropped_order
   \<and> stopping dropped_order = StopReturned
   \<and> snd (submits dropped_order ! 0) = Awaiting
   \<and> run [Submit (Suc 0)] dropped_order = Some dropped_order_later
   \<and> snd (submits dropped_order_later ! 0) = Awaiting
   \<and> (order 1 ''AAPL'' 1 100, 0) \<in> set (tradeQueue dropped_order_later)"
  using C8_stop_waits_for_in_flight [OF run_graceful_stop]
    C8_stop_waits_for_in_flight [OF run_dropped_order]
    run_graceful_stop run_stop_while_in_flight run_dropped_order run_dropped_order_later
  by (simp add: graceful_stop_def stop_while_in_flight_def dropped_order_def
        dropped_order_later_def)

text \<open>
  The claim as the specification states it fails in its second half: an order is in the
  queue when \<^verbatim>\<open>Stop\<close> is called, the only worker observes the stop signal and returns,
  \<^verbatim>\<open>Stop\<close> returns, and the order is left in the queue with its caller waiting.
\<close>

theorem C8_queued_order_dropped_counterexample:
  "run [Submit 0, CallStop, ObserveStop 0, StopReturn]
     (started 1 [order 1 ''AAPL'' 1 100, order 2 ''MSFT'' 1 100] []) = Some dropped_order
   \<and> stopping dropped_order = StopReturned
   \<and> workers dropped_order = [Exited]
   \<and> tradeQueue dropped_order = [(order 1 ''AAPL'' 1 100, 0)]
   \<and> submits dropped_order ! 0 = (order 1 ''AAPL'' 1 100, Awaiting)"
  using run_dropped_order by (simp add: dropped_order_def)

end
